theory Spec2Isabelle
  imports Complex_Main "HOL-Library.Word" "HOL-Library.Multiset"
    "HOL-Library.Char_ord" "HOL-Library.List_Lexorder" "HOL-Library.Product_Lexorder"
begin

unbundle bit_operations_syntax

section \<open>Token hashing of the deterministic embedder (embeddings.h)\<close>

text \<open>
  \<^verbatim>\<open>size_t\<close> is the native unsigned word. Its width is left open: it is the length
  \<open>'w\<close> of the word type (64 on an LP64 platform). \<^verbatim>\<open>unsigned int seed = 42\<close> is a
  member that is never written after initialisation; it is converted to \<^verbatim>\<open>size_t\<close>
  where it is used.
\<close>

definition seed :: "'w::len word" where
  "seed = 42"

text \<open>
  The loop of \<^verbatim>\<open>hashString\<close>: one step per character, the accumulator \<^verbatim>\<open>hash\<close>
  multiplied by 31 and increased by the character read as \<^verbatim>\<open>unsigned char\<close>; all
  arithmetic wraps at the width of \<^verbatim>\<open>size_t\<close>.
\<close>

fun hashString_loop :: "'w::len word \<Rightarrow> string \<Rightarrow> 'w word" where
  "hashString_loop hash [] = hash"
| "hashString_loop hash (c # str) = hashString_loop (hash * 31 + of_char c) str"

definition hashString :: "string \<Rightarrow> 'w::len word" where
  "hashString str = hashString_loop 0 str"

text \<open>
  The argument that \<^verbatim>\<open>getTokenEmbedding\<close> passes to the constructor of
  \<^verbatim>\<open>std::mt19937\<close>: \<^verbatim>\<open>seed + hashString(token)\<close>, computed in \<^verbatim>\<open>size_t\<close>. The
  generator and the normal distribution belong to the standard library and are not
  modelled.
\<close>

definition getTokenEmbedding_seed :: "string \<Rightarrow> 'w::len word" where
  "getTokenEmbedding_seed token = seed + hashString token"

text \<open>The closed form of the rolling hash, read as a natural number.\<close>

definition poly31 :: "string \<Rightarrow> nat" where
  "poly31 str = (\<Sum>i<length str. of_char (str ! i) * 31 ^ (length str - 1 - i))"

section \<open>Data model of the index (kdtree.h)\<close>

text \<open>
  \<^verbatim>\<open>Point\<close> is \<^verbatim>\<open>Eigen::VectorXd\<close>, a vector of doubles whose length is a run-time
  value. The development works in exact arithmetic: a double is a \<^typ>\<open>real\<close>, so
  rounding and overflow are outside the model, and the largest finite double appears
  only as the constant the searches start from.
\<close>

type_synonym Point = "real list"

record DataItem =
  item_text :: string
  embedding :: Point

text \<open>
  A \<^verbatim>\<open>Node*\<close> is either the null pointer or an owned node with the fields
  \<^verbatim>\<open>point\<close>, \<^verbatim>\<open>text\<close>, \<^verbatim>\<open>axis\<close>, \<^verbatim>\<open>left\<close> and \<^verbatim>\<open>right\<close>, in this order.
\<close>

datatype Node = nullptr | Node Point string nat Node Node

text \<open>
  The members of \<^verbatim>\<open>KDTree\<close>; \<^verbatim>\<open>node_count\<close>, which only feeds the memory
  estimate of the benchmark, is left out.
\<close>

record KDTree =
  root :: Node
  leaf_size :: int
  dimensions :: nat

text \<open>
  None of the operations reports an error to its caller. What the code can do instead
  of returning is to violate the precondition of a library operation, which is an
  assertion failure in a checked build and undefined behaviour otherwise:
  Eigen's binary operators require operands of equal size, Eigen's coefficient access
  requires an index below the size, \<^verbatim>\<open>%\<close> requires a divisor other than zero, and
  \<^verbatim>\<open>top()\<close> requires a queue that is not empty.
\<close>

datatype undefined_behaviour = SizeMismatch | IndexOutOfRange | ModuloByZero | TopOfEmptyQueue

definition double_max :: real where
  "double_max = (2 - 1 / 2 ^ 52) * 2 ^ 1023"

definition squaredNorm_diff :: "Point \<Rightarrow> Point \<Rightarrow> undefined_behaviour + real" where
  "squaredNorm_diff a b =
     (if length a \<noteq> length b then Inl SizeMismatch
      else Inr (\<Sum>(x, y)\<leftarrow>zip a b. (x - y) * (x - y)))"

definition norm_diff :: "Point \<Rightarrow> Point \<Rightarrow> undefined_behaviour + real" where
  "norm_diff a b =
     (case squaredNorm_diff a b of Inl e \<Rightarrow> Inl e | Inr d \<Rightarrow> Inr (sqrt d))"

definition coeff :: "Point \<Rightarrow> nat \<Rightarrow> undefined_behaviour + real" where
  "coeff v i = (if i < length v then Inr (v ! i) else Inl IndexOutOfRange)"

section \<open>Construction\<close>

text \<open>
  \<^verbatim>\<open>std::sort\<close> on the slice \<open>[start, end)\<close> with the comparator
  \<^verbatim>\<open>a.embedding(axis) < b.embedding(axis)\<close>. The comparator reads coordinate
  \<open>axis\<close> of every element of a slice of two or more elements. The standard leaves
  the order of elements with equal keys open; the model takes the stable order, and the
  concrete inputs evaluated below have no equal keys inside a sorted slice.
\<close>

definition std_sort :: "nat \<Rightarrow> nat \<Rightarrow> nat \<Rightarrow> DataItem list \<Rightarrow> undefined_behaviour + DataItem list" where
  "std_sort axis start end data =
     (let slice = take (end - start) (drop start data) in
      if 2 \<le> length slice \<and> (\<exists>d \<in> set slice. length (embedding d) \<le> axis)
      then Inl IndexOutOfRange
      else Inr (take start data @ sort_key (\<lambda>d. embedding d ! axis) slice @ drop end data))"

text \<open>
  \<^verbatim>\<open>buildTree(data, depth, start, end)\<close>. The vector is passed by reference and sorted
  in place, so the function returns the vector next to the node. The members
  \<^verbatim>\<open>leaf_size\<close> and \<^verbatim>\<open>dimensions\<close> it reads are the first two arguments. The
  constructor calls it with \<open>0 \<le> start \<le> end \<le> size\<close>, and the recursion keeps
  that; the \<^verbatim>\<open>int\<close> indices and depth are natural numbers here, so datasets too large
  for an \<^verbatim>\<open>int\<close> are outside the model. The leaf case builds the node from
  \<^verbatim>\<open>data[start]\<close> alone.
\<close>

function buildTree ::
  "int \<Rightarrow> nat \<Rightarrow> DataItem list \<Rightarrow> nat \<Rightarrow> nat \<Rightarrow> nat \<Rightarrow> undefined_behaviour + (Node \<times> DataItem list)" where
  "buildTree lsize dims data depth start end =
     (if start \<ge> end then Inr (nullptr, data)
      else if int (end - start) \<le> lsize
      then Inr (Node (embedding (data ! start)) (item_text (data ! start)) 0 nullptr nullptr, data)
      else if dims = 0 then Inl ModuloByZero
      else
        let axis = depth mod dims in
        case std_sort axis start end data of
          Inl e \<Rightarrow> Inl e
        | Inr data1 \<Rightarrow>
            let mid = start + (end - start) div 2 in
            (case buildTree lsize dims data1 (depth + 1) start mid of
               Inl e \<Rightarrow> Inl e
             | Inr (left, data2) \<Rightarrow>
                 (case buildTree lsize dims data2 (depth + 1) (mid + 1) end of
                    Inl e \<Rightarrow> Inl e
                  | Inr (right, data3) \<Rightarrow>
                      Inr (Node (embedding (data1 ! mid)) (item_text (data1 ! mid)) axis left right,
                           data3))))"
  by pat_completeness auto
termination
  by (relation "measure (\<lambda>(lsize, dims, data, depth, start, end). end - start)") auto

declare buildTree.simps [simp del]

text \<open>
  The constructor, on a store of the \<^verbatim>\<open>std::vector<DataItem>\<close> objects alive
  (an address is a position in the store). \<open>data\<close> is the address behind the
  constant reference the caller passes. \<^verbatim>\<open>data_copy\<close> is a fresh local vector
  initialised with a copy, the reference handed to \<^verbatim>\<open>buildTree\<close> is bound to it,
  and it is destroyed when the constructor returns.
\<close>

type_synonym store = "DataItem list list"

definition KDTree_ctor :: "store \<Rightarrow> nat \<Rightarrow> int \<Rightarrow> undefined_behaviour + (KDTree \<times> store)" where
  "KDTree_ctor s data lsize =
     (if s ! data = [] then Inr (\<lparr>root = nullptr, leaf_size = lsize, dimensions = 0\<rparr>, s)
      else
        let dims = length (embedding (s ! data ! 0));
            data_copy = length s;
            s1 = s @ [s ! data]
        in case buildTree lsize dims (s1 ! data_copy) 0 0 (length (s1 ! data_copy)) of
             Inl e \<Rightarrow> Inl e
           | Inr (r, v) \<Rightarrow>
               Inr (\<lparr>root = r, leaf_size = lsize, dimensions = dims\<rparr>,
                    butlast (s1[data_copy := v])))"

text \<open>The constructor seen from a caller that owns one dataset.\<close>

definition KDTree :: "DataItem list \<Rightarrow> int \<Rightarrow> undefined_behaviour + KDTree" where
  "KDTree data lsize =
     (case KDTree_ctor [data] 0 lsize of Inl e \<Rightarrow> Inl e | Inr (t, s) \<Rightarrow> Inr t)"

text \<open>The items that can be reached from a node: in-order, the node's own item between its subtrees.\<close>

fun items :: "Node \<Rightarrow> DataItem list" where
  "items nullptr = []"
| "items (Node point txt axis left right) =
     items left @ [\<lparr>item_text = txt, embedding = point\<rparr>] @ items right"

section \<open>Nearest neighbour\<close>

text \<open>
  \<^verbatim>\<open>nearestNeighbor\<close>: the pair \<open>(best_dist, best_text)\<close> is the state the two
  reference parameters carry.
\<close>

fun nearestNeighbor :: "Node \<Rightarrow> Point \<Rightarrow> real \<times> string \<Rightarrow> undefined_behaviour + (real \<times> string)" where
  "nearestNeighbor nullptr query best = Inr best"
| "nearestNeighbor (Node point txt axis left right) query (best_dist, best_text) =
     (case squaredNorm_diff query point of
        Inl e \<Rightarrow> Inl e
      | Inr dist' \<Rightarrow>
          let best1 = (if dist' < best_dist then (dist', txt) else (best_dist, best_text)) in
          (case coeff query axis of
             Inl e \<Rightarrow> Inl e
           | Inr qa \<Rightarrow>
               (case coeff point axis of
                  Inl e \<Rightarrow> Inl e
                | Inr pa \<Rightarrow>
                    let diff = qa - pa in
                    (case nearestNeighbor (if diff < 0 then left else right) query best1 of
                       Inl e \<Rightarrow> Inl e
                     | Inr best2 \<Rightarrow>
                         if diff * diff < fst best2
                         then nearestNeighbor (if diff < 0 then right else left) query best2
                         else Inr best2))))"

definition nearest :: "KDTree \<Rightarrow> Point \<Rightarrow> undefined_behaviour + (real \<times> string)" where
  "nearest t query =
     (case nearestNeighbor (root t) query (double_max, '''') of
        Inl e \<Rightarrow> Inl e
      | Inr (best_dist, best_text) \<Rightarrow> Inr (sqrt best_dist, best_text))"

text \<open>\<^verbatim>\<open>LinearSearch::nearest\<close>: the loop over the retained dataset.\<close>

fun LinearSearch_loop :: "DataItem list \<Rightarrow> Point \<Rightarrow> real \<times> string \<Rightarrow> undefined_behaviour + (real \<times> string)" where
  "LinearSearch_loop [] query best = Inr best"
| "LinearSearch_loop (item # rest) query (min_dist, nearest_text) =
     (case norm_diff query (embedding item) of
        Inl e \<Rightarrow> Inl e
      | Inr dist' \<Rightarrow>
          LinearSearch_loop rest query
            (if dist' < min_dist then (dist', item_text item) else (min_dist, nearest_text)))"

definition LinearSearch_nearest :: "DataItem list \<Rightarrow> Point \<Rightarrow> undefined_behaviour + (real \<times> string)" where
  "LinearSearch_nearest data query = LinearSearch_loop data query (double_max, '''')"

section \<open>k nearest neighbours\<close>

text \<open>
  \<^verbatim>\<open>std::priority_queue<std::pair<double, std::string>>\<close> is a max-heap under the
  lexicographic order of pairs (distance first, then the text, compared bytewise). Two
  elements that compare equal are the same pair, so the queue is determined by its
  contents; it is kept as the list of its elements from the largest down. \<^verbatim>\<open>top()\<close>
  is the head and \<^verbatim>\<open>pop()\<close> drops it.
\<close>

type_synonym pqueue = "(real \<times> string) list"

fun pq_push :: "real \<times> string \<Rightarrow> pqueue \<Rightarrow> pqueue" where
  "pq_push x [] = [x]"
| "pq_push x (y # ys) = (if y \<le> x then x # y # ys else y # pq_push x ys)"

text \<open>
  The update of the queue at a visited node (the first statement after the distance in
  \<^verbatim>\<open>kNearestNeighbors\<close>): push while fewer than \<open>k\<close> elements are held, else compare
  with \<^verbatim>\<open>pq.top()\<close>, which is read without a test for emptiness.
\<close>

definition heap_update :: "real \<Rightarrow> string \<Rightarrow> pqueue \<Rightarrow> int \<Rightarrow> undefined_behaviour + pqueue" where
  "heap_update dist' txt pq k =
     (if int (length pq) < k then Inr (pq_push (dist', txt) pq)
      else (case pq of
              [] \<Rightarrow> Inl TopOfEmptyQueue
            | top' # popped \<Rightarrow>
                if dist' < fst top' then Inr (pq_push (dist', txt) popped) else Inr pq))"

fun kNearestNeighbors :: "Node \<Rightarrow> Point \<Rightarrow> pqueue \<Rightarrow> int \<Rightarrow> undefined_behaviour + pqueue" where
  "kNearestNeighbors nullptr query pq k = Inr pq"
| "kNearestNeighbors (Node point txt axis left right) query pq k =
     (case squaredNorm_diff query point of
        Inl e \<Rightarrow> Inl e
      | Inr dist' \<Rightarrow>
          (case heap_update dist' txt pq k of
             Inl e \<Rightarrow> Inl e
           | Inr pq1 \<Rightarrow>
               (case coeff query axis of
                  Inl e \<Rightarrow> Inl e
                | Inr qa \<Rightarrow>
                    (case coeff point axis of
                       Inl e \<Rightarrow> Inl e
                     | Inr pa \<Rightarrow>
                         let diff = qa - pa in
                         (case kNearestNeighbors (if diff < 0 then left else right) query pq1 k of
                            Inl e \<Rightarrow> Inl e
                          | Inr pq2 \<Rightarrow>
                              let largest_dist = (if pq2 = [] then double_max else fst (hd pq2)) in
                              if diff * diff < largest_dist \<or> int (length pq2) < k
                              then kNearestNeighbors (if diff < 0 then right else left) query pq2 k
                              else Inr pq2)))))"

text \<open>The loop of \<^verbatim>\<open>kNearest\<close> that empties the queue into \<^verbatim>\<open>result\<close>.\<close>

fun drain :: "pqueue \<Rightarrow> (real \<times> string) list \<Rightarrow> (real \<times> string) list" where
  "drain [] result = result"
| "drain (item # pq) result = drain pq (result @ [(sqrt (fst item), snd item)])"

definition kNearest :: "KDTree \<Rightarrow> Point \<Rightarrow> int \<Rightarrow> undefined_behaviour + (real \<times> string) list" where
  "kNearest t query k =
     (case kNearestNeighbors (root t) query [] k of
        Inl e \<Rightarrow> Inl e
      | Inr pq \<Rightarrow> Inr (rev (drain pq [])))"

section \<open>Predicates and fixtures of the statements\<close>

text \<open>
  The data model asks that all vectors of a dataset have one dimension, which the
  constructor reads off the first item; a split also divides by it.
\<close>

definition dataset_ok :: "DataItem list \<Rightarrow> bool" where
  "dataset_ok data =
     (data \<noteq> [] \<longrightarrow>
        0 < length (embedding (data ! 0)) \<and>
        (\<forall>d \<in> set data. length (embedding d) = length (embedding (data ! 0))))"

text \<open>Every point below a node has dimension \<open>D\<close> and every axis is below \<open>D\<close>.\<close>

fun node_ok :: "nat \<Rightarrow> Node \<Rightarrow> bool" where
  "node_ok D nullptr = True"
| "node_ok D (Node point txt axis left right) =
     (length point = D \<and> axis < D \<and> node_ok D left \<and> node_ok D right)"

text \<open>The number of \<^verbatim>\<open>Node\<close> objects below a pointer.\<close>

fun count_nodes :: "Node \<Rightarrow> nat" where
  "count_nodes nullptr = 0"
| "count_nodes (Node point txt axis left right) = count_nodes left + 1 + count_nodes right"

text \<open>The elements at the positions \<open>[start, fin)\<close> of a vector.\<close>

definition slice :: "nat \<Rightarrow> nat \<Rightarrow> 'a list \<Rightarrow> 'a list" where
  "slice start fin xs = take (fin - start) (drop start xs)"

text \<open>
  The ordering the search relies on: along the axis of a node, nothing in its left
  subtree lies above the node's point and nothing in its right subtree lies below it.
\<close>

fun kd_inv :: "Node \<Rightarrow> bool" where
  "kd_inv nullptr = True"
| "kd_inv (Node point txt axis left right) =
     ((\<forall>d \<in> set (items left). embedding d ! axis \<le> point ! axis) \<and>
      (\<forall>d \<in> set (items right). point ! axis \<le> embedding d ! axis) \<and>
      kd_inv left \<and> kd_inv right)"

text \<open>
  What a call of \<^verbatim>\<open>buildTree\<close> on \<open>[start, fin)\<close> establishes: the vector is permuted
  inside the slice only, the node is well-formed, and with a leaf size of at most one
  the node holds exactly the items of the slice, ordered for the search.
\<close>

definition built :: "int \<Rightarrow> nat \<Rightarrow> DataItem list \<Rightarrow> nat \<Rightarrow> nat \<Rightarrow> Node \<Rightarrow> DataItem list \<Rightarrow> bool" where
  "built lsize dims data start fin nd data' =
     (length data' = length data
      \<and> take start data' = take start data
      \<and> drop fin data' = drop fin data
      \<and> mset data' = mset data
      \<and> node_ok dims nd
      \<and> (lsize \<le> 1 \<longrightarrow> mset (items nd) = mset (slice start fin data) \<and> kd_inv nd))"

text \<open>The queue invariant: from the largest element down.\<close>

definition descending :: "pqueue \<Rightarrow> bool" where
  "descending pq = sorted_wrt (\<lambda>x y. y \<le> x) pq"

text \<open>The squared distance that \<open>squaredNorm_diff\<close> returns on vectors of one size.\<close>

definition sqdist :: "Point \<Rightarrow> Point \<Rightarrow> real" where
  "sqdist a b = (\<Sum>(x, y)\<leftarrow>zip a b. (x - y) * (x - y))"

text \<open>
  What a search over the items \<open>ds\<close> does to the pair of best squared distance and text:
  the distance does not grow, it bounds the squared distance of every item of \<open>ds\<close>,
  and the pair either stays or is the squared distance and text of an item of \<open>ds\<close>.
\<close>

definition improves ::
  "Point \<Rightarrow> DataItem list \<Rightarrow> real \<times> string \<Rightarrow> real \<times> string \<Rightarrow> bool" where
  "improves query ds best best' =
     (fst best' \<le> fst best
      \<and> (\<forall>d \<in> set ds. fst best' \<le> sqdist query (embedding d))
      \<and> (best' = best
          \<or> (\<exists>d \<in> set ds. fst best' = sqdist query (embedding d) \<and> snd best' = item_text d)))"

text \<open>The same for the linear scan, which compares distances, not squared distances.\<close>

definition scanned ::
  "Point \<Rightarrow> DataItem list \<Rightarrow> real \<times> string \<Rightarrow> real \<times> string \<Rightarrow> bool" where
  "scanned query ds best best' =
     (fst best' \<le> fst best
      \<and> (\<forall>d \<in> set ds. fst best' \<le> sqrt (sqdist query (embedding d)))
      \<and> (best' = best
          \<or> (\<exists>d \<in> set ds. fst best' = sqrt (sqdist query (embedding d))
                \<and> snd best' = item_text d)))"

text \<open>Two items on a line.\<close>

definition item_a :: DataItem where
  "item_a = \<lparr>item_text = ''a'', embedding = [0]\<rparr>"

definition item_b :: DataItem where
  "item_b = \<lparr>item_text = ''b'', embedding = [1]\<rparr>"

section \<open>The rolling hash is a polynomial in 31\<close>

lemma poly31_Nil: "poly31 [] = 0"
  by (simp add: poly31_def)

lemma poly31_snoc: "poly31 (str @ [c]) = poly31 str * 31 + of_char c"
proof -
  have "(\<Sum>i<length str. of_char ((str @ [c]) ! i) * 31 ^ (length str - i))
      = (\<Sum>i<length str. (of_char (str ! i) * 31 ^ (length str - 1 - i)) * (31::nat))"
  proof (rule sum.cong)
    fix i assume "i \<in> {..<length str}"
    then have i: "i < length str" by simp
    then have "length str - i = Suc (length str - 1 - i)" by arith
    with i show "of_char ((str @ [c]) ! i) * 31 ^ (length str - i)
        = (of_char (str ! i) * 31 ^ (length str - 1 - i)) * (31::nat)"
      by (simp add: nth_append)
  qed simp
  then show ?thesis
    by (simp add: poly31_def sum_distrib_right)
qed

lemma hashString_loop_snoc:
  "hashString_loop h (str @ [c]) = hashString_loop h str * 31 + of_char c"
  by (induction str arbitrary: h) simp_all

lemma hashString_poly31: "hashString str = of_nat (poly31 str)"
proof (induction str rule: rev_induct)
  case Nil
  show ?case by (simp add: hashString_def poly31_Nil)
next
  case (snoc c str)
  have "hashString (str @ [c]) = (hashString str :: 'a word) * 31 + of_char c"
    by (simp add: hashString_def hashString_loop_snoc)
  also have "\<dots> = of_nat (poly31 str * 31 + of_char c)"
    by (simp add: snoc.IH of_nat_of_char)
  finally show ?case by (simp add: poly31_snoc)
qed

text \<open>
  Claim C6, as the code has it: the value handed to the generator is the sum
  \<^verbatim>\<open>seed + hashString(token)\<close> taken modulo \<open>2 ^ w\<close>, where \<open>w\<close> is the width of
  \<^verbatim>\<open>size_t\<close> (an addition, not an exclusive or), and the hash is the polynomial in 31
  over the unsigned byte values of the token, modulo \<open>2 ^ w\<close>.
\<close>

theorem token_seed_is_sum_of_seed_and_hash:
  "unat (getTokenEmbedding_seed token :: 'w::len word) = (42 + poly31 token) mod 2 ^ LENGTH('w)
   \<and> unat (hashString token :: 'w word) = poly31 token mod 2 ^ LENGTH('w)"
proof -
  have h: "(hashString token :: 'w word) = of_nat (poly31 token)"
    by (rule hashString_poly31)
  have "(getTokenEmbedding_seed token :: 'w word) = of_nat (42 + poly31 token)"
    by (simp add: getTokenEmbedding_seed_def seed_def h)
  then have "unat (getTokenEmbedding_seed token :: 'w word)
      = (42 + poly31 token) mod 2 ^ LENGTH('w)"
    by (simp only: unat_of_nat)
  moreover have "unat (hashString token :: 'w word) = poly31 token mod 2 ^ LENGTH('w)"
    by (simp only: h unat_of_nat)
  ultimately show ?thesis by simp
qed

text \<open>
  Claim C6, as the specification words it, fails: at 64 bits and for the token \<open>a\<close>
  (byte 97) the code seeds with \<open>42 + 97 = 139\<close>, while \<open>42 XOR 97 = 75\<close>.
\<close>

theorem token_seed_xor_counterexample:
  "(getTokenEmbedding_seed ''a'' :: 64 word) = 139
   \<and> (seed XOR hashString ''a'' :: 64 word) = 75"
  by (simp add: getTokenEmbedding_seed_def hashString_def seed_def)

section \<open>Slices of a vector\<close>

lemma slice_decomp:
  "start \<le> fin \<Longrightarrow> fin \<le> length xs \<Longrightarrow> xs = take start xs @ slice start fin xs @ drop fin xs"
proof -
  assume a: "start \<le> fin" "fin \<le> length xs"
  have "drop fin xs = drop (fin - start) (drop start xs)"
    using a by simp
  then have "slice start fin xs @ drop fin xs = drop start xs"
    by (simp only: slice_def append_take_drop_id)
  then have "take start xs @ slice start fin xs @ drop fin xs = take start xs @ drop start xs"
    by simp
  then show ?thesis by simp
qed

lemma length_slice: "fin \<le> length xs \<Longrightarrow> length (slice start fin xs) = fin - start"
  by (simp add: slice_def)

lemma nth_slice: "i < fin - start \<Longrightarrow> fin \<le> length xs \<Longrightarrow> slice start fin xs ! i = xs ! (start + i)"
  by (simp add: slice_def)

lemma slice_split:
  assumes "start \<le> mid" "mid < fin" "fin \<le> length xs"
  shows "slice start fin xs = slice start mid xs @ [xs ! mid] @ slice (mid + 1) fin xs"
proof (rule nth_equalityI)
  show "length (slice start fin xs) = length (slice start mid xs @ [xs ! mid] @ slice (mid + 1) fin xs)"
    using assms by (simp add: length_slice)
next
  fix i assume "i < length (slice start fin xs)"
  then have i: "i < fin - start" using assms by (simp add: length_slice)
  consider "i < mid - start" | "i = mid - start" | "mid - start < i" by arith
  then show "slice start fin xs ! i = (slice start mid xs @ [xs ! mid] @ slice (mid + 1) fin xs) ! i"
  proof cases
    case 1
    with i assms show ?thesis by (simp add: nth_append length_slice nth_slice)
  next
    case 2
    with i assms show ?thesis by (simp add: nth_append length_slice nth_slice)
  next
    case 3
    with i assms have "i - (mid - start) - 1 < fin - (mid + 1)" by arith
    with 3 i assms show ?thesis
      by (auto simp add: nth_append length_slice nth_slice nth_Cons' add.commute)
  qed
qed

lemma slice_drop_cong: "drop m xs = drop m ys \<Longrightarrow> m \<le> a \<Longrightarrow> slice a b xs = slice a b ys"
proof -
  assume d: "drop m xs = drop m ys" and m: "m \<le> a"
  have "drop a xs = drop (a - m) (drop m xs)" using m by simp
  also have "\<dots> = drop (a - m) (drop m ys)" by (simp only: d)
  also have "\<dots> = drop a ys" using m by simp
  finally show ?thesis by (simp add: slice_def)
qed

lemma slice_take: "b \<le> m \<Longrightarrow> slice a b (take m xs) = slice a b xs"
proof -
  assume "b \<le> m"
  then have "b - a \<le> m - a" by arith
  then show ?thesis
    by (simp add: slice_def drop_take min_absorb1)
qed

lemma slice_take_cong: "take m xs = take m ys \<Longrightarrow> b \<le> m \<Longrightarrow> slice a b xs = slice a b ys"
  by (metis slice_take)

lemma take_take_cong: "take m xs = take m ys \<Longrightarrow> n \<le> m \<Longrightarrow> take n xs = take n ys"
  by (metis min.absorb1 take_take)

lemma drop_drop_cong: "drop m xs = drop m ys \<Longrightarrow> m \<le> n \<Longrightarrow> drop n xs = drop n ys"
  by (metis add_diff_inverse_nat drop_drop not_less add.commute)

section \<open>What construction establishes\<close>

lemma std_sort_ok:
  assumes "\<forall>d \<in> set data. length (embedding d) = dims" "axis < dims"
    "start \<le> fin" "fin \<le> length data"
  shows "\<exists>data1. std_sort axis start fin data = Inr data1
          \<and> length data1 = length data
          \<and> take start data1 = take start data
          \<and> drop fin data1 = drop fin data
          \<and> slice start fin data1 = sort_key (\<lambda>d. embedding d ! axis) (slice start fin data)
          \<and> mset data1 = mset data"
proof -
  let ?s = "slice start fin data"
  let ?d1 = "take start data @ sort_key (\<lambda>d. embedding d ! axis) ?s @ drop fin data"
  have sub: "set ?s \<subseteq> set data"
    unfolding slice_def by (meson set_take_subset set_drop_subset subset_trans)
  then have "\<not> (\<exists>d \<in> set ?s. length (embedding d) \<le> axis)"
    using assms(1,2) by auto
  then have r: "std_sort axis start fin data = Inr ?d1"
    by (simp add: std_sort_def slice_def Let_def)
  have dec: "data = take start data @ ?s @ drop fin data"
    using assms(3,4) by (rule slice_decomp)
  have len: "length ?d1 = length data"
    using assms(3,4) by (simp add: length_slice)
  have ls: "length (take start data) = start" using assms(3,4) by simp
  have t: "take start ?d1 = take start data"
    using ls by simp
  have d: "drop fin ?d1 = drop fin data"
    using assms(3,4) by (simp add: length_slice)
  have s: "slice start fin ?d1 = sort_key (\<lambda>d. embedding d ! axis) ?s"
    using assms(3,4) ls by (simp add: slice_def[of start fin "_ @ _"] length_slice)
  have "mset ?d1 = mset (take start data @ ?s @ drop fin data)"
    by simp
  then have m: "mset ?d1 = mset data"
    using dec by simp
  from r len t d s m show ?thesis by blast
qed

lemma item_eta: "\<lparr>item_text = item_text d, embedding = embedding d\<rparr> = (d :: DataItem)"
  by simp

lemma buildTree_built:
  "(\<forall>d \<in> set data. length (embedding d) = dims) \<Longrightarrow> 0 < dims \<Longrightarrow> start \<le> fin \<Longrightarrow>
   fin \<le> length data \<Longrightarrow>
   \<exists>nd data'. buildTree lsize dims data depth start fin = Inr (nd, data')
      \<and> built lsize dims data start fin nd data'"
proof (induction lsize dims data depth start fin rule: buildTree.induct)
  case (1 lsize dims data depth start fin)
  note dim = "1.prems"(1) and pos = "1.prems"(2) and le = "1.prems"(3) and bound = "1.prems"(4)
  show ?case
  proof (cases "fin \<le> start")
    case True
    with le have "start = fin" by simp
    then show ?thesis
      by (simp add: buildTree.simps built_def slice_def)
  next
    case nonempty: False
    then have lt: "start < fin" by simp
    show ?thesis
    proof (cases "int (fin - start) \<le> lsize")
      case True
      let ?nd = "Node (embedding (data ! start)) (item_text (data ! start)) 0 nullptr nullptr"
      have r: "buildTree lsize dims data depth start fin = Inr (?nd, data)"
        using nonempty True by (simp add: buildTree.simps)
      have "data ! start \<in> set data" using lt bound by simp
      then have ok: "node_ok dims ?nd" using dim pos by simp
      have "mset (items ?nd) = mset (slice start fin data)" if "lsize \<le> 1"
      proof -
        from that True lt have "fin = start + 1" by simp
        then have "slice start fin data = [data ! start]"
          using bound by (simp add: slice_def take_Suc_conv_app_nth hd_drop_conv_nth
              take_Suc)
        then show ?thesis by simp
      qed
      with ok have "built lsize dims data start fin ?nd data"
        by (simp add: built_def)
      with r show ?thesis by blast
    next
      case split: False
      define axis where "axis = depth mod dims"
      define mid where "mid = start + (fin - start) div 2"
      have ax: "axis < dims" using pos by (simp add: axis_def)
      have mid: "start \<le> mid" "mid < fin" using lt by (simp_all add: mid_def)
      let ?key = "\<lambda>d. embedding d ! axis"
      from std_sort_ok [OF dim ax le bound] obtain data1 where
        s: "std_sort axis start fin data = Inr data1"
        and len1: "length data1 = length data"
        and take1: "take start data1 = take start data"
        and drop1: "drop fin data1 = drop fin data"
        and slice1: "slice start fin data1 = sort_key ?key (slice start fin data)"
        and mset1: "mset data1 = mset data"
        by blast
      have dim1: "\<forall>d \<in> set data1. length (embedding d) = dims"
        using dim mset_eq_setD [OF mset1] by simp
      have "\<exists>nd data'. buildTree lsize dims data1 (depth + 1) start mid = Inr (nd, data')
          \<and> built lsize dims data1 start mid nd data'"
        using "1.IH"(1) [OF nonempty split _ axis_def s mid_def dim1 pos] pos mid bound len1
        by simp
      then obtain left data2 where
        l: "buildTree lsize dims data1 (depth + 1) start mid = Inr (left, data2)"
        and bl: "built lsize dims data1 start mid left data2"
        by blast
      from bl have len2: "length data2 = length data1"
        and take2: "take start data2 = take start data1"
        and drop2: "drop mid data2 = drop mid data1"
        and mset2: "mset data2 = mset data1"
        and okl: "node_ok dims left"
        and itl: "lsize \<le> 1 \<Longrightarrow> mset (items left) = mset (slice start mid data1) \<and> kd_inv left"
        by (simp_all add: built_def)
      have dim2: "\<forall>d \<in> set data2. length (embedding d) = dims"
        using dim1 mset_eq_setD [OF mset2] by simp
      have "\<exists>nd data'. buildTree lsize dims data2 (depth + 1) (mid + 1) fin = Inr (nd, data')
          \<and> built lsize dims data2 (mid + 1) fin nd data'"
        using "1.IH"(2) [OF nonempty split _ axis_def s mid_def l refl dim2 pos] pos mid bound
          len1 len2
        by simp
      then obtain right data3 where
        r: "buildTree lsize dims data2 (depth + 1) (mid + 1) fin = Inr (right, data3)"
        and br: "built lsize dims data2 (mid + 1) fin right data3"
        by blast
      from br have len3: "length data3 = length data2"
        and take3: "take (mid + 1) data3 = take (mid + 1) data2"
        and drop3: "drop fin data3 = drop fin data2"
        and mset3: "mset data3 = mset data2"
        and okr: "node_ok dims right"
        and itr: "lsize \<le> 1 \<Longrightarrow> mset (items right) = mset (slice (mid + 1) fin data2) \<and> kd_inv right"
        by (simp_all add: built_def)
      let ?nd = "Node (embedding (data1 ! mid)) (item_text (data1 ! mid)) axis left right"
      have res: "buildTree lsize dims data depth start fin = Inr (?nd, data3)"
        using nonempty split pos s l r
        by (subst buildTree.simps) (simp add: Let_def axis_def [symmetric] mid_def [symmetric])
      have midin: "data1 ! mid \<in> set data1" using mid bound len1 by simp
      have ok: "node_ok dims ?nd"
        using okl okr ax dim1 midin by simp
      have len: "length data3 = length data" using len1 len2 len3 by simp
      have tk: "take start data3 = take start data"
        using take_take_cong [OF take3, of start] mid take2 take1 by simp
      have dr: "drop fin data3 = drop fin data"
        using drop_drop_cong [OF drop2, of fin] mid drop3 drop1 by simp
      have ms: "mset data3 = mset data" using mset1 mset2 mset3 by simp
      have content: "mset (items ?nd) = mset (slice start fin data) \<and> kd_inv ?nd" if small: "lsize \<le> 1"
      proof -
        let ?S = "slice start fin data1"
        have bound1: "fin \<le> length data1" using bound len1 by simp
        have sl2: "slice (mid + 1) fin data2 = slice (mid + 1) fin data1"
          using drop2 by (rule slice_drop_cong) simp
        have dec: "?S = slice start mid data1 @ [data1 ! mid] @ slice (mid + 1) fin data1"
          using mid bound1 by (rule slice_split)
        have "mset (items ?nd) = mset ?S"
          using itl [OF small] itr [OF small] sl2 by (simp add: dec item_eta)
        also have "\<dots> = mset (slice start fin data)"
          by (simp add: slice1)
        finally have m: "mset (items ?nd) = mset (slice start fin data)" .
        have sorted: "sorted (map ?key ?S)"
          by (simp add: slice1)
        have lenS: "length ?S = fin - start" using bound1 by (simp add: length_slice)
        have pivot: "?S ! (mid - start) = data1 ! mid"
          using mid bound1 by (simp add: nth_slice)
        have left_le: "?key d \<le> ?key (data1 ! mid)" if "d \<in> set (items left)" for d
        proof -
          from that itl [OF small] have "d \<in> set (slice start mid data1)"
            by (metis set_mset_mset)
          then obtain i where i: "i < mid - start" "slice start mid data1 ! i = d"
            using mid bound1 by (auto simp: in_set_conv_nth length_slice)
          then have eq: "?S ! i = d"
            using mid bound1 by (simp add: nth_slice)
          have "map ?key ?S ! i \<le> map ?key ?S ! (mid - start)"
            using sorted i mid lenS by (intro sorted_nth_mono) simp_all
          then have "?key (?S ! i) \<le> ?key (?S ! (mid - start))"
            using i mid lenS by simp
          then show ?thesis
            unfolding eq pivot .
        qed
        have right_ge: "?key (data1 ! mid) \<le> ?key d" if "d \<in> set (items right)" for d
        proof -
          from that itr [OF small] sl2 have "d \<in> set (slice (mid + 1) fin data1)"
            by (metis set_mset_mset)
          then obtain i where i: "i < fin - (mid + 1)" "slice (mid + 1) fin data1 ! i = d"
            using mid bound1 by (auto simp: in_set_conv_nth length_slice)
          then have eq: "?S ! (mid + 1 - start + i) = d"
            using mid bound1 by (simp add: nth_slice)
          have "map ?key ?S ! (mid - start) \<le> map ?key ?S ! (mid + 1 - start + i)"
            using sorted i mid lenS by (intro sorted_nth_mono) simp_all
          then have "?key (?S ! (mid - start)) \<le> ?key (?S ! (mid + 1 - start + i))"
            using i mid lenS by simp
          then show ?thesis
            unfolding eq pivot .
        qed
        have "kd_inv ?nd"
          using left_le right_ge itl [OF small] itr [OF small] by simp
        with m show ?thesis by simp
      qed
      have "built lsize dims data start fin ?nd data3"
        unfolding built_def using len tk dr ms ok content by blast
      with res show ?thesis by blast
    qed
  qed
qed

lemma buildTree_nonnull:
  "buildTree lsize dims data depth start fin = Inr (nd, data') \<Longrightarrow> start < fin \<Longrightarrow> nd \<noteq> nullptr"
proof -
  assume r: "buildTree lsize dims data depth start fin = Inr (nd, data')" and lt: "start < fin"
  show ?thesis
  proof (cases "int (fin - start) \<le> lsize")
    case True
    with r lt show ?thesis by (auto simp: buildTree.simps [of lsize dims data depth start fin])
  next
    case False
    with r lt show ?thesis
      by (auto simp: buildTree.simps [of lsize dims data depth start fin] Let_def
          split: if_splits sum.splits prod.splits)
  qed
qed

lemma KDTree_ctor_nonempty:
  assumes "dataset_ok (s ! data)" "s ! data \<noteq> []"
  shows "\<exists>nd data'. KDTree_ctor s data lsize
            = Inr (\<lparr>root = nd, leaf_size = lsize,
                     dimensions = length (embedding (s ! data ! 0))\<rparr>, s)
          \<and> built lsize (length (embedding (s ! data ! 0))) (s ! data) 0 (length (s ! data)) nd data'
          \<and> nd \<noteq> nullptr"
proof -
  let ?dims = "length (embedding (s ! data ! 0))"
  from assms have dim: "\<forall>d \<in> set (s ! data). length (embedding d) = ?dims" and pos: "0 < ?dims"
    unfolding dataset_ok_def by blast+
  have "\<exists>nd data'. buildTree lsize ?dims (s ! data) 0 0 (length (s ! data)) = Inr (nd, data')
      \<and> built lsize ?dims (s ! data) 0 (length (s ! data)) nd data'"
    by (rule buildTree_built [OF dim pos]) simp_all
  then obtain nd data' where
    b: "buildTree lsize ?dims (s ! data) 0 0 (length (s ! data)) = Inr (nd, data')"
    and bt: "built lsize ?dims (s ! data) 0 (length (s ! data)) nd data'"
    by blast
  from assms(2) have "0 < length (s ! data)" by simp
  with b have nn: "nd \<noteq> nullptr" by (rule buildTree_nonnull)
  have "KDTree_ctor s data lsize = Inr (\<lparr>root = nd, leaf_size = lsize, dimensions = ?dims\<rparr>, s)"
    using assms(2) b by (simp add: KDTree_ctor_def Let_def)
  with bt nn show ?thesis by blast
qed

lemma KDTree_empty:
  "KDTree [] lsize = Inr \<lparr>root = nullptr, leaf_size = lsize, dimensions = 0\<rparr>"
  by (simp add: KDTree_def KDTree_ctor_def)

text \<open>
  With a leaf size of at most one (the default is 1) the tree of a well-formed dataset
  holds exactly the items of the dataset.
\<close>

lemma KDTree_items:
  assumes "dataset_ok data" "lsize \<le> 1"
  shows "\<exists>t. KDTree data lsize = Inr t \<and> mset (items (root t)) = mset data"
proof (cases "data = []")
  case True
  then show ?thesis by (simp add: KDTree_empty)
next
  case False
  let ?dims = "length (embedding (data ! 0))"
  from KDTree_ctor_nonempty [of "[data]" 0 lsize] assms(1) False obtain nd data' where
    c: "KDTree_ctor [data] 0 lsize
          = Inr (\<lparr>root = nd, leaf_size = lsize, dimensions = ?dims\<rparr>, [data])"
    and b: "built lsize ?dims data 0 (length data) nd data'"
    by auto
  from b assms(2) have "mset (items nd) = mset data"
    by (simp add: built_def slice_def)
  with c show ?thesis by (simp add: KDTree_def)
qed

section \<open>The constructor and the dataset of the caller\<close>

text \<open>
  Claim C10: for every store, every dataset in it and every leaf size, a constructor call
  that returns leaves the store as it was, the caller's dataset included (same items,
  same order): the vector that \<^verbatim>\<open>buildTree\<close> sorts is the local copy. The call
  returns unless the dataset is ill-formed (an empty first vector or vectors of
  different dimensions).
\<close>

theorem KDTree_ctor_leaves_dataset_unchanged:
  "data < length s \<Longrightarrow>
   (case KDTree_ctor s data lsize of
      Inr (t, s') \<Rightarrow> s' = s
    | Inl e \<Rightarrow> \<not> dataset_ok (s ! data))"
proof (cases "KDTree_ctor s data lsize")
  case (Inr p)
  then have "snd p = s"
    by (auto simp: KDTree_ctor_def Let_def split: if_splits sum.splits prod.splits)
  with Inr show ?thesis by (simp add: case_prod_beta)
next
  case (Inl e)
  then have "s ! data \<noteq> []"
    by (auto simp: KDTree_ctor_def)
  with KDTree_ctor_nonempty [of s data lsize] Inl show ?thesis
    by auto
qed

text \<open>
  Claim C10 at a concrete input: the caller's vector holds \<open>b\<close> before \<open>a\<close>;
  \<^verbatim>\<open>buildTree\<close> returns its vector sorted, \<open>a\<close> before \<open>b\<close>, and the store after
  the constructor still holds \<open>b\<close> before \<open>a\<close>.
\<close>

theorem KDTree_ctor_leaves_dataset_unchanged_witness:
  "(0 :: nat) < length [[item_b, item_a]]
   \<and> buildTree 1 1 [item_b, item_a] 0 0 2
       = Inr (Node [1] ''b'' 0 (Node [0] ''a'' 0 nullptr nullptr) nullptr, [item_a, item_b])
   \<and> KDTree_ctor [[item_b, item_a]] 0 1
       = Inr (\<lparr>root = Node [1] ''b'' 0 (Node [0] ''a'' 0 nullptr nullptr) nullptr,
               leaf_size = 1, dimensions = 1\<rparr>, [[item_b, item_a]])"
  using KDTree_ctor_leaves_dataset_unchanged [of 0 "[[item_b, item_a]]" 1]
  by (simp add: KDTree_ctor_def buildTree.simps std_sort_def item_a_def item_b_def)

section \<open>Leaves of more than one item\<close>

lemma KDTree_ab_leaf2:
  "KDTree [item_a, item_b] 2
     = Inr \<lparr>root = Node [0] ''a'' 0 nullptr nullptr, leaf_size = 2, dimensions = 1\<rparr>"
  by (simp add: KDTree_def KDTree_ctor_def buildTree.simps item_a_def item_b_def)

lemma KDTree_ab_leaf1:
  "KDTree [item_a, item_b] 1
     = Inr \<lparr>root = Node [1] ''b'' 0 (Node [0] ''a'' 0 nullptr nullptr) nullptr,
            leaf_size = 1, dimensions = 1\<rparr>"
  by (simp add: KDTree_def KDTree_ctor_def buildTree.simps std_sort_def item_a_def item_b_def)

text \<open>
  Claim C1 fails on the code. With the dataset \<open>a\<close> at 0 and \<open>b\<close> at 1 and a leaf size
  of 2, the range of two items is at most the leaf size, so \<^verbatim>\<open>buildTree\<close> returns one
  leaf made from \<^verbatim>\<open>data[start]\<close>: the tree holds \<open>a\<close> alone and \<open>b\<close> is lost.
\<close>

theorem leaf_keeps_first_item_only:
  "KDTree [item_a, item_b] 2
     = Inr \<lparr>root = Node [0] ''a'' 0 nullptr nullptr, leaf_size = 2, dimensions = 1\<rparr>
   \<and> items (Node [0] ''a'' 0 nullptr nullptr) = [item_a]
   \<and> mset [item_a] \<noteq> mset [item_a, item_b]"
  by (simp add: KDTree_ab_leaf2) (simp add: item_a_def)

section \<open>Distances\<close>

lemma double_max_gt: "x \<le> 1 \<Longrightarrow> x < double_max"
  unfolding double_max_def by simp

lemma double_max_ge_1: "1 \<le> double_max"
  unfolding double_max_def by simp

lemma sqrt_below_double_max: "x < double_max \<Longrightarrow> sqrt x < double_max"
proof (cases "x \<le> 1")
  case True
  then have "sqrt x \<le> 1" by simp
  then show ?thesis by (rule double_max_gt)
next
  case False
  assume below: "x < double_max"
  from False have "1 \<le> sqrt x" by simp
  then have "sqrt x * 1 \<le> sqrt x * sqrt x"
    by (intro mult_left_mono) simp_all
  with False have "sqrt x \<le> x" by simp
  with below show ?thesis by simp
qed

lemma squaredNorm_diff_eq:
  "length a = length b \<Longrightarrow> squaredNorm_diff a b = Inr (sqdist a b)"
  by (simp add: squaredNorm_diff_def sqdist_def)

lemma sqdist_Cons: "sqdist (x # a) (y # b) = (x - y) * (x - y) + sqdist a b"
  by (simp add: sqdist_def)

lemma sqdist_nonneg: "0 \<le> sqdist a b"
  unfolding sqdist_def by (intro sum_list_nonneg) auto

lemma sqdist_coord:
  "length a = length b \<Longrightarrow> i < length a \<Longrightarrow> (a ! i - b ! i) * (a ! i - b ! i) \<le> sqdist a b"
proof (induction a b arbitrary: i rule: list_induct2)
  case Nil
  then show ?case by simp
next
  case (Cons x a y b)
  show ?case
  proof (cases i)
    case 0
    then show ?thesis
      using sqdist_nonneg [of a b] by (simp add: sqdist_Cons)
  next
    case (Suc j)
    with Cons.prems have "j < length a" by simp
    then have "(a ! j - b ! j) * (a ! j - b ! j) \<le> sqdist a b"
      by (rule Cons.IH)
    then show ?thesis
      using Suc by (simp add: sqdist_Cons add_increasing)
  qed
qed

lemma square_mono_abs: "\<bar>x\<bar> \<le> \<bar>y\<bar> \<Longrightarrow> x * x \<le> y * (y :: real)"
  by (metis abs_mult_self_eq abs_ge_zero mult_mono)

text \<open>An item across the plane of a node is at least as far as the plane.\<close>

lemma far_side_bound:
  assumes "length (embedding d) = length query" "axis < length query"
    and "(query ! axis < pa \<and> pa \<le> embedding d ! axis) \<or> (pa \<le> query ! axis \<and> embedding d ! axis \<le> pa)"
  shows "(query ! axis - pa) * (query ! axis - pa) \<le> sqdist query (embedding d)"
proof -
  have "\<bar>query ! axis - pa\<bar> \<le> \<bar>query ! axis - embedding d ! axis\<bar>"
    using assms(3) by auto
  then have "(query ! axis - pa) * (query ! axis - pa)
      \<le> (query ! axis - embedding d ! axis) * (query ! axis - embedding d ! axis)"
    by (rule square_mono_abs)
  also have "\<dots> \<le> sqdist query (embedding d)"
    using assms(1,2) by (intro sqdist_coord) simp_all
  finally show ?thesis .
qed

section \<open>The nearest-neighbour search\<close>

lemma node_ok_items:
  "node_ok D nd \<Longrightarrow> d \<in> set (items nd) \<Longrightarrow> length (embedding d) = D"
  by (induction nd) auto

lemma improves_refl: "improves query [] best best"
  by (simp add: improves_def)

lemma improves_trans:
  "improves query ds best best1 \<Longrightarrow> improves query es best1 best2
   \<Longrightarrow> improves query (ds @ es) best best2"
  unfolding improves_def by (auto intro: order_trans)

lemma improves_perm:
  "improves query ds best best' \<Longrightarrow> set ds = set es \<Longrightarrow> improves query es best best'"
  by (simp add: improves_def)

lemma improves_skip:
  "improves query ds best best' \<Longrightarrow> \<forall>d \<in> set es. fst best' \<le> sqdist query (embedding d)
   \<Longrightarrow> improves query (ds @ es) best best'"
  unfolding improves_def by auto

lemma improves_item:
  "improves query [\<lparr>item_text = tx, embedding = p\<rparr>] (bd, bt)
     (if sqdist query p < bd then (sqdist query p, tx) else (bd, bt))"
  by (simp add: improves_def)

lemma nearestNeighbor_improves:
  "node_ok (length query) nd \<Longrightarrow> kd_inv nd \<Longrightarrow>
   \<exists>best'. nearestNeighbor nd query best = Inr best' \<and> improves query (items nd) best best'"
proof (induction nd arbitrary: best)
  case nullptr
  show ?case by (simp add: improves_refl)
next
  case (Node point tx axis left right)
  obtain bd bt where best: "best = (bd, bt)" by (cases best)
  from Node.prems have len: "length point = length query" and ax: "axis < length query"
    and okl: "node_ok (length query) left" and okr: "node_ok (length query) right"
    and invl: "kd_inv left" and invr: "kd_inv right"
    and lle: "\<forall>d \<in> set (items left). embedding d ! axis \<le> point ! axis"
    and rge: "\<forall>d \<in> set (items right). point ! axis \<le> embedding d ! axis"
    by auto
  let ?me = "\<lparr>item_text = tx, embedding = point\<rparr>"
  let ?best1 = "if sqdist query point < bd then (sqdist query point, tx) else (bd, bt)"
  have sq: "squaredNorm_diff query point = Inr (sqdist query point)"
    using len by (simp add: squaredNorm_diff_eq)
  have c1: "coeff query axis = Inr (query ! axis)" and c2: "coeff point axis = Inr (point ! axis)"
    using len ax by (simp_all add: coeff_def)
  have i1: "improves query [?me] best ?best1"
    unfolding best by (rule improves_item)
  let ?diff = "query ! axis - point ! axis"
  define near where "near = (if query ! axis < point ! axis then left else right)"
  define far where "far = (if query ! axis < point ! axis then right else left)"
  have oknear: "node_ok (length query) near" and invnear: "kd_inv near"
    and okfar: "node_ok (length query) far" and invfar: "kd_inv far"
    using okl okr invl invr by (simp_all add: near_def far_def)
  have IHnear: "\<exists>best'. nearestNeighbor near query b = Inr best' \<and> improves query (items near) b best'" for b
    using Node.IH(1) [OF okl invl, of b] Node.IH(2) [OF okr invr, of b] by (simp add: near_def)
  have IHfar: "\<exists>best'. nearestNeighbor far query b = Inr best' \<and> improves query (items far) b best'" for b
    using Node.IH(1) [OF okl invl, of b] Node.IH(2) [OF okr invr, of b] by (simp add: far_def)
  from IHnear [of ?best1] obtain best2 where
    n2: "nearestNeighbor near query ?best1 = Inr best2"
    and i2: "improves query (items near) ?best1 best2"
    by blast
  have unfold: "nearestNeighbor (Node point tx axis left right) query best =
      (if ?diff * ?diff < fst best2 then nearestNeighbor far query best2 else Inr best2)"
    using n2 unfolding best near_def far_def
    by (cases "query ! axis < point ! axis") (simp_all add: sq c1 c2 Let_def)
  have sets: "set (items (Node point tx axis left right)) = set ([?me] @ items near @ items far)"
    by (auto simp: near_def far_def)
  show ?case
  proof (cases "?diff * ?diff < fst best2")
    case True
    from IHfar [of best2] obtain best3 where
      n3: "nearestNeighbor far query best2 = Inr best3"
      and i3: "improves query (items far) best2 best3"
      by blast
    have "improves query ([?me] @ items near @ items far) best best3"
      using improves_trans [OF i1 improves_trans [OF i2 i3]] .
    then have "improves query (items (Node point tx axis left right)) best best3"
      using sets by (rule improves_perm [OF _ sym])
    with True n3 unfold show ?thesis by simp
  next
    case False
    have "fst best2 \<le> sqdist query (embedding d)" if d: "d \<in> set (items far)" for d
    proof -
      have ld: "length (embedding d) = length query"
        using okfar d by (rule node_ok_items)
      have "(query ! axis < point ! axis \<and> point ! axis \<le> embedding d ! axis)
          \<or> (point ! axis \<le> query ! axis \<and> embedding d ! axis \<le> point ! axis)"
        using d lle rge by (cases "query ! axis < point ! axis") (auto simp: far_def)
      from far_side_bound [OF ld ax this] False show ?thesis by simp
    qed
    then have "improves query (items near @ items far) ?best1 best2"
      using i2 by (intro improves_skip) simp_all
    then have "improves query ([?me] @ items near @ items far) best best2"
      using i1 by (rule improves_trans [rotated])
    then have "improves query (items (Node point tx axis left right)) best best2"
      using sets by (rule improves_perm [OF _ sym])
    with False unfold show ?thesis by simp
  qed
qed

lemma LinearSearch_loop_scanned:
  "\<forall>d \<in> set ds. length (embedding d) = length query \<Longrightarrow>
   \<exists>best'. LinearSearch_loop ds query best = Inr best' \<and> scanned query ds best best'"
proof (induction ds arbitrary: best)
  case Nil
  show ?case by (simp add: scanned_def)
next
  case (Cons item ds)
  obtain md mt where best: "best = (md, mt)" by (cases best)
  let ?d = "sqrt (sqdist query (embedding item))"
  let ?best1 = "if ?d < md then (?d, item_text item) else (md, mt)"
  have n: "norm_diff query (embedding item) = Inr ?d"
    using Cons.prems by (simp add: norm_diff_def squaredNorm_diff_eq)
  from Cons.IH [of ?best1] Cons.prems obtain best' where
    r: "LinearSearch_loop ds query ?best1 = Inr best'"
    and s: "scanned query ds ?best1 best'"
    by auto
  have "LinearSearch_loop (item # ds) query best = Inr best'"
    using r by (simp add: best n)
  moreover have "scanned query (item # ds) best best'"
    using s unfolding scanned_def best by (auto split: if_splits)
  ultimately show ?case by blast
qed

lemma dataset_ok_dims:
  "dataset_ok data \<Longrightarrow> d \<in> set data \<Longrightarrow> length (embedding d) = length (embedding (data ! 0))"
  unfolding dataset_ok_def by (cases data) auto

text \<open>
  With a leaf size of at most one (the default is 1) and squared distances below the
  largest double, the tree search and the linear scan agree: both return an item of the
  dataset at the least distance, and the same distance.
\<close>

lemma nearest_agrees_with_linear_scan:
  assumes ok: "dataset_ok data" and ne: "data \<noteq> []" and small: "lsize \<le> 1"
    and q: "length query = length (embedding (data ! 0))"
    and fin: "\<forall>d \<in> set data. sqdist query (embedding d) < double_max"
  shows "\<exists>t dist' tk tl. KDTree data lsize = Inr t
           \<and> nearest t query = Inr (dist', tk)
           \<and> LinearSearch_nearest data query = Inr (dist', tl)
           \<and> (\<forall>d \<in> set data. dist' \<le> sqrt (sqdist query (embedding d)))
           \<and> (\<exists>d \<in> set data. item_text d = tk \<and> sqrt (sqdist query (embedding d)) = dist')
           \<and> (\<exists>d \<in> set data. item_text d = tl \<and> sqrt (sqdist query (embedding d)) = dist')"
proof -
  let ?dims = "length (embedding (data ! 0))"
  from KDTree_ctor_nonempty [of "[data]" 0 lsize] ok ne obtain nd data' where
    c: "KDTree_ctor [data] 0 lsize
          = Inr (\<lparr>root = nd, leaf_size = lsize, dimensions = ?dims\<rparr>, [data])"
    and b: "built lsize ?dims data 0 (length data) nd data'"
    by auto
  let ?t = "\<lparr>root = nd, leaf_size = lsize, dimensions = ?dims\<rparr>"
  have t: "KDTree data lsize = Inr ?t"
    using c by (simp add: KDTree_def)
  from b small have nok: "node_ok (length query) nd" and inv: "kd_inv nd"
    and its: "mset (items nd) = mset data"
    by (simp_all add: built_def slice_def q)
  have sets: "set (items nd) = set data"
    using its by (rule mset_eq_setD)
  from nearestNeighbor_improves [OF nok inv, of "(double_max, '''')"] obtain bk where
    nk: "nearestNeighbor nd query (double_max, '''') = Inr bk"
    and ik: "improves query (items nd) (double_max, '''') bk"
    by blast
  from ne obtain d0 where d0: "d0 \<in> set data" by (cases data) auto
  from ik have kle: "\<forall>d \<in> set data. fst bk \<le> sqdist query (embedding d)"
    by (simp add: improves_def sets)
  with d0 fin have "fst bk < double_max" by fastforce
  with ik obtain dk where dk: "dk \<in> set data" "fst bk = sqdist query (embedding dk)"
    "snd bk = item_text dk"
    by (auto simp: improves_def sets)
  have dims: "\<forall>d \<in> set data. length (embedding d) = length query"
    using ok q by (simp add: dataset_ok_dims)
  from LinearSearch_loop_scanned [OF dims, of "(double_max, '''')"] obtain bl where
    nl: "LinearSearch_loop data query (double_max, '''') = Inr bl"
    and il: "scanned query data (double_max, '''') bl"
    by blast
  from il have lle: "\<forall>d \<in> set data. fst bl \<le> sqrt (sqdist query (embedding d))"
    by (simp add: scanned_def)
  have "sqrt (sqdist query (embedding d0)) < double_max"
    using d0 fin by (intro sqrt_below_double_max) simp
  with lle d0 have "fst bl < double_max" by fastforce
  with il obtain dl where dl: "dl \<in> set data" "fst bl = sqrt (sqdist query (embedding dl))"
    "snd bl = item_text dl"
    by (auto simp: scanned_def)
  have "sqrt (fst bk) \<le> fst bl"
    using kle dl by simp
  moreover have "fst bl \<le> sqrt (fst bk)"
    using lle dk by simp
  ultimately have eq: "fst bl = sqrt (fst bk)" by simp
  have rk: "nearest ?t query = Inr (sqrt (fst bk), snd bk)"
    using nk by (simp add: nearest_def case_prod_beta)
  have rl: "LinearSearch_nearest data query = Inr (sqrt (fst bk), snd bl)"
    using nl eq by (simp add: LinearSearch_nearest_def) (metis prod.collapse)
  have "\<forall>d \<in> set data. sqrt (fst bk) \<le> sqrt (sqdist query (embedding d))"
    using kle by simp
  moreover have "\<exists>d \<in> set data. item_text d = snd bk \<and> sqrt (sqdist query (embedding d)) = sqrt (fst bk)"
    using dk by auto
  moreover have "\<exists>d \<in> set data. item_text d = snd bl \<and> sqrt (sqdist query (embedding d)) = sqrt (fst bk)"
    using dl eq by auto
  ultimately show ?thesis
    using t rk rl by blast
qed

lemma nearest_ab_leaf2:
  "nearest \<lparr>root = Node [0] ''a'' 0 nullptr nullptr, leaf_size = l, dimensions = d\<rparr> [1]
     = Inr (1, ''a'')"
  by (simp add: nearest_def squaredNorm_diff_def coeff_def double_max_gt)

text \<open>
  Claim C3 fails on the code. On the same dataset, leaf size 2 and the query 1, the
  tree answers \<open>a\<close> at distance 1 while the linear scan answers \<open>b\<close> at distance 0:
  neither the texts nor the distances agree.
\<close>

theorem nearest_disagrees_with_linear_scan:
  "KDTree [item_a, item_b] 2
     = Inr \<lparr>root = Node [0] ''a'' 0 nullptr nullptr, leaf_size = 2, dimensions = 1\<rparr>
   \<and> nearest \<lparr>root = Node [0] ''a'' 0 nullptr nullptr, leaf_size = 2, dimensions = 1\<rparr> [1]
     = Inr (1, ''a'')
   \<and> LinearSearch_nearest [item_a, item_b] [1] = Inr (0, ''b'')"
  by (simp add: KDTree_ab_leaf2 nearest_ab_leaf2)
     (simp add: LinearSearch_nearest_def norm_diff_def squaredNorm_diff_def double_max_gt
        item_a_def item_b_def)

section \<open>The empty index\<close>

text \<open>
  Claim C4 as the specification words it fails: on the tree built from the empty
  dataset \<^verbatim>\<open>nearest\<close> does not fail, it returns a pair of a distance and a text.
\<close>

theorem nearest_on_empty_tree_counterexample:
  "KDTree [] 1 = Inr \<lparr>root = nullptr, leaf_size = 1, dimensions = 0\<rparr>
   \<and> nearest \<lparr>root = nullptr, leaf_size = 1, dimensions = 0\<rparr> [] = Inr (sqrt double_max, '''')"
  by (simp add: KDTree_empty nearest_def)

text \<open>
  Claim C4 as the code has it: for every leaf size and every query, \<^verbatim>\<open>nearest\<close> on the
  tree built from the empty dataset returns the square root of the initial best distance
  (the largest finite double) together with the empty text.
\<close>

theorem nearest_on_empty_tree_returns_sentinel:
  "KDTree [] lsize = Inr \<lparr>root = nullptr, leaf_size = lsize, dimensions = 0\<rparr>
   \<and> nearest \<lparr>root = nullptr, leaf_size = lsize, dimensions = 0\<rparr> query
       = Inr (sqrt double_max, '''')"
  by (simp add: KDTree_empty nearest_def)

section \<open>The queue of the k-nearest search\<close>

lemma set_pq_push: "set (pq_push x pq) = insert x (set pq)"
  by (induction pq) auto

lemma descending_pq_push: "descending pq \<Longrightarrow> descending (pq_push x pq)"
  unfolding descending_def
proof (induction pq)
  case Nil
  then show ?case by simp
next
  case (Cons y pq)
  show ?case
  proof (cases "y \<le> x")
    case True
    have "\<forall>z\<in>set pq. z \<le> x"
      using Cons.prems True by (auto intro: order_trans)
    with Cons.prems True show ?thesis by simp
  next
    case False
    then have "x \<le> y" by simp
    with Cons False show ?thesis by (auto simp: set_pq_push)
  qed
qed

lemma descending_tl: "descending (y # pq) \<Longrightarrow> descending pq"
  by (simp add: descending_def)

lemma length_pq_push: "length (pq_push x pq) = Suc (length pq)"
  by (induction pq) auto

lemma heap_update_descending:
  "heap_update d tx pq k = Inr pq1 \<Longrightarrow> descending pq \<Longrightarrow> descending pq1"
  by (auto simp: heap_update_def split: if_splits list.splits
      intro: descending_pq_push dest: descending_tl)

lemma heap_update_returns: "1 \<le> k \<Longrightarrow> \<exists>pq1. heap_update d tx pq k = Inr pq1"
  by (cases pq) (auto simp: heap_update_def)

lemma heap_update_length:
  "heap_update d tx pq k = Inr pq1 \<Longrightarrow> length pq \<le> nat k
   \<Longrightarrow> length pq1 = min (nat k) (length pq + 1)"
  by (auto simp: heap_update_def length_pq_push split: if_splits list.splits)

lemma kNearestNeighbors_NodeE:
  assumes "kNearestNeighbors (Node point tx axis left right) query pq k = Inr pq'"
  obtains d pq1 pq2 near far where
    "squaredNorm_diff query point = Inr d"
    "heap_update d tx pq k = Inr pq1"
    "axis < length query" "axis < length point"
    "near = (if query ! axis < point ! axis then left else right)"
    "far = (if query ! axis < point ! axis then right else left)"
    "kNearestNeighbors near query pq1 k = Inr pq2"
    "if (query ! axis - point ! axis) * (query ! axis - point ! axis)
          < (if pq2 = [] then double_max else fst (hd pq2)) \<or> int (length pq2) < k
     then kNearestNeighbors far query pq2 k = Inr pq' else pq' = pq2"
  using assms
  by (auto simp: Let_def coeff_def split: sum.splits if_splits)

lemma kNearestNeighbors_descending:
  "kNearestNeighbors nd query pq k = Inr pq' \<Longrightarrow> descending pq \<Longrightarrow> descending pq'"
proof (induction nd arbitrary: pq pq')
  case nullptr
  then show ?case by simp
next
  case (Node point tx axis left right)
  from Node.prems(1) show ?case
  proof (rule kNearestNeighbors_NodeE)
    fix d pq1 pq2 near far
    assume pq1: "heap_update d tx pq k = Inr pq1"
      and near: "near = (if query ! axis < point ! axis then left else right)"
      and far: "far = (if query ! axis < point ! axis then right else left)"
      and first: "kNearestNeighbors near query pq1 k = Inr pq2"
      and second: "if (query ! axis - point ! axis) * (query ! axis - point ! axis)
          < (if pq2 = [] then double_max else fst (hd pq2)) \<or> int (length pq2) < k
        then kNearestNeighbors far query pq2 k = Inr pq' else pq' = pq2"
    from pq1 Node.prems(2) have "descending pq1"
      by (rule heap_update_descending)
    with first near Node.IH have pq2: "descending pq2"
      by (auto split: if_splits)
    show "descending pq'"
    proof (cases "pq' = pq2")
      case True
      with pq2 show ?thesis by simp
    next
      case False
      with second have "kNearestNeighbors far query pq2 k = Inr pq'"
        by (auto split: if_splits)
      with far pq2 Node.IH show ?thesis
        by (auto split: if_splits)
    qed
  qed
qed

lemma kNearestNeighbors_returns:
  "node_ok (length query) nd \<Longrightarrow> 1 \<le> k \<Longrightarrow> \<exists>pq'. kNearestNeighbors nd query pq k = Inr pq'"
proof (induction nd arbitrary: pq)
  case nullptr
  then show ?case by simp
next
  case (Node point tx axis left right)
  from Node.prems have len: "length point = length query" and ax: "axis < length query"
    and okl: "node_ok (length query) left" and okr: "node_ok (length query) right"
    by auto
  obtain d where d: "squaredNorm_diff query point = Inr d"
    using len by (simp add: squaredNorm_diff_def)
  obtain pq1 where pq1: "heap_update d tx pq k = Inr pq1"
    using heap_update_returns [OF Node.prems(2)] by blast
  have c1: "coeff query axis = Inr (query ! axis)" and c2: "coeff point axis = Inr (point ! axis)"
    using len ax by (simp_all add: coeff_def)
  let ?diff = "query ! axis - point ! axis"
  obtain pq2 where pq2:
    "kNearestNeighbors (if query ! axis < point ! axis then left else right) query pq1 k = Inr pq2"
    using Node.IH(1) [OF okl Node.prems(2), of pq1] Node.IH(2) [OF okr Node.prems(2), of pq1]
    by (cases "query ! axis < point ! axis") auto
  obtain pq3 where pq3:
    "kNearestNeighbors (if query ! axis < point ! axis then right else left) query pq2 k = Inr pq3"
    using Node.IH(1) [OF okl Node.prems(2), of pq2] Node.IH(2) [OF okr Node.prems(2), of pq2]
    by (cases "query ! axis < point ! axis") auto
  from pq2 pq3 show ?case
    by (cases "query ! axis < point ! axis") (simp_all add: d pq1 c1 c2 Let_def)
qed

lemma kNearestNeighbors_length:
  "kNearestNeighbors nd query pq k = Inr pq' \<Longrightarrow> length pq \<le> nat k
   \<Longrightarrow> length pq' = min (nat k) (length pq + count_nodes nd)"
proof (induction nd arbitrary: pq pq')
  case nullptr
  then show ?case by simp
next
  case (Node point tx axis left right)
  from Node.prems(1) show ?case
  proof (rule kNearestNeighbors_NodeE)
    fix d pq1 pq2 near far
    assume pq1: "heap_update d tx pq k = Inr pq1"
      and near: "near = (if query ! axis < point ! axis then left else right)"
      and far: "far = (if query ! axis < point ! axis then right else left)"
      and first: "kNearestNeighbors near query pq1 k = Inr pq2"
      and second: "if (query ! axis - point ! axis) * (query ! axis - point ! axis)
          < (if pq2 = [] then double_max else fst (hd pq2)) \<or> int (length pq2) < k
        then kNearestNeighbors far query pq2 k = Inr pq' else pq' = pq2"
    have count: "count_nodes near + count_nodes far = count_nodes left + count_nodes right"
      by (simp add: near far)
    from pq1 Node.prems(2) have l1: "length pq1 = min (nat k) (length pq + 1)"
      by (rule heap_update_length)
    then have b1: "length pq1 \<le> nat k" by simp
    have IHnear: "length pq2 = min (nat k) (length pq1 + count_nodes near)"
      using Node.IH(1) [OF _ b1, of pq2] Node.IH(2) [OF _ b1, of pq2] first
      by (auto simp: near split: if_splits)
    then have b2: "length pq2 \<le> nat k" by simp
    show "length pq' = min (nat k) (length pq + count_nodes (Node point tx axis left right))"
    proof (cases "kNearestNeighbors far query pq2 k = Inr pq'")
      case True
      have "length pq' = min (nat k) (length pq2 + count_nodes far)"
        using Node.IH(1) [OF _ b2, of pq'] Node.IH(2) [OF _ b2, of pq'] True
        by (auto simp: far split: if_splits)
      with IHnear l1 count show ?thesis
        unfolding count_nodes.simps by arith
    next
      case False
      with second have eq: "pq' = pq2" and full: "\<not> int (length pq2) < k"
        by (auto split: if_splits)
      from full b2 have "length pq2 = nat k" by simp
      moreover from eq have "length pq' = length pq2" by simp
      ultimately show ?thesis
        using IHnear l1 count
        unfolding count_nodes.simps by arith
    qed
  qed
qed

lemma drain_map: "drain pq result = result @ map (\<lambda>item. (sqrt (fst item), snd item)) pq"
  by (induction pq arbitrary: result) auto

lemma drain_length: "length (drain pq result) = length result + length pq"
  by (simp add: drain_map)

lemma descending_fst: "descending pq \<Longrightarrow> sorted (rev (map (\<lambda>item. sqrt (fst item)) pq))"
proof -
  assume "descending pq"
  then have "sorted_wrt (\<lambda>x y. sqrt (fst y) \<le> sqrt (fst x)) pq"
    unfolding descending_def
    by (rule sorted_wrt_mono_rel [rotated]) (auto simp: less_eq_prod_def)
  then have "sorted_wrt (\<lambda>x y. y \<le> x) (map (\<lambda>item. sqrt (fst item)) pq)"
    by (simp add: sorted_wrt_map)
  then show ?thesis
    by (simp add: sorted_wrt_rev)
qed

lemma length_items: "length (items nd) = count_nodes nd"
  by (induction nd) auto

text \<open>
  On any tree: whenever \<^verbatim>\<open>kNearest\<close> returns, the distances of the returned sequence
  are non-decreasing, and it does return whenever \<open>k\<close> is at least one and the query has
  the dimension of the points of the tree.
\<close>

lemma kNearest_sorted:
  "case kNearest t query k of
     Inr result \<Rightarrow> sorted (map fst result)
   | Inl e \<Rightarrow> \<not> (node_ok (length query) (root t) \<and> 1 \<le> k)"
proof (cases "kNearest t query k")
  case (Inr result)
  then obtain pq where pq: "kNearestNeighbors (root t) query [] k = Inr pq"
    and res: "result = rev (drain pq [])"
    by (auto simp: kNearest_def split: sum.splits)
  have "descending pq"
    using kNearestNeighbors_descending [OF pq] by (simp add: descending_def)
  then have "sorted (map fst result)"
    using descending_fst [of pq] by (simp add: res drain_map rev_map comp_def)
  with Inr show ?thesis by simp
next
  case (Inl e)
  then have "\<not> (\<exists>pq. kNearestNeighbors (root t) query [] k = Inr pq)"
    by (auto simp: kNearest_def split: sum.splits)
  with kNearestNeighbors_returns [of query "root t" k "[]"] Inl show ?thesis
    by auto
qed

lemma KDTree_node_ok:
  assumes "KDTree data lsize = Inr t" "dataset_ok data"
  shows "node_ok (dimensions t) (root t)"
proof (cases "data = []")
  case True
  with assms(1) show ?thesis by (auto simp: KDTree_empty)
next
  case False
  let ?dims = "length (embedding (data ! 0))"
  from KDTree_ctor_nonempty [of "[data]" 0 lsize] assms(2) False obtain nd data' where
    c: "KDTree_ctor [data] 0 lsize
          = Inr (\<lparr>root = nd, leaf_size = lsize, dimensions = ?dims\<rparr>, [data])"
    and b: "built lsize ?dims data 0 (length data) nd data'"
    by auto
  from c assms(1) have "t = \<lparr>root = nd, leaf_size = lsize, dimensions = ?dims\<rparr>"
    by (simp add: KDTree_def)
  with b show ?thesis by (simp add: built_def)
qed

text \<open>
  Claim C7: for every dataset, leaf size, query and \<open>k\<close>, whenever \<^verbatim>\<open>kNearest\<close> on the
  tree of the dataset returns, the distances of the returned sequence are non-decreasing
  from first to last. It returns whenever the dataset is well-formed, the query has the
  dimension of the index and \<open>k\<close> is at least one.
\<close>

theorem kNearest_nondecreasing:
  assumes "KDTree data lsize = Inr t"
  shows "case kNearest t query k of
           Inr result \<Rightarrow> sorted (map fst result)
         | Inl e \<Rightarrow> \<not> (dataset_ok data \<and> length query = dimensions t \<and> 1 \<le> k)"
proof (cases "kNearest t query k")
  case (Inr result)
  with kNearest_sorted [where t = t and query = query and k = k] show ?thesis by simp
next
  case (Inl e)
  with kNearest_sorted [where t = t and query = query and k = k]
  have "\<not> (node_ok (length query) (root t) \<and> 1 \<le> k)"
    by simp
  with KDTree_node_ok [OF assms] Inl show ?thesis
    by auto
qed

text \<open>
  Claim C7 at a concrete input: the two-item dataset with leaf size 1, the query 1 and
  \<open>k = 2\<close>.
\<close>

theorem kNearest_nondecreasing_witness:
  "KDTree [item_a, item_b] 1
     = Inr \<lparr>root = Node [1] ''b'' 0 (Node [0] ''a'' 0 nullptr nullptr) nullptr,
            leaf_size = 1, dimensions = 1\<rparr>
   \<and> kNearest \<lparr>root = Node [1] ''b'' 0 (Node [0] ''a'' 0 nullptr nullptr) nullptr,
            leaf_size = 1, dimensions = 1\<rparr> [1] 2 = Inr [(0, ''b''), (1, ''a'')]
   \<and> sorted (map fst [(0 :: real, ''b''), (1, ''a'')])"
  using kNearest_nondecreasing [OF KDTree_ab_leaf1, where query = "[1]" and k = 2]
    KDTree_ab_leaf1
  by (simp add: kNearest_def heap_update_def squaredNorm_diff_def coeff_def double_max_gt)

text \<open>
  With \<open>k\<close> of at least one and a leaf size of at most one, \<^verbatim>\<open>kNearest\<close> returns
  \<open>min k n\<close> results on a dataset of \<open>n\<close> items.
\<close>

lemma kNearest_length:
  assumes ok: "dataset_ok data" and small: "lsize \<le> 1" and k: "1 \<le> k"
    and q: "data \<noteq> [] \<Longrightarrow> length query = length (embedding (data ! 0))"
  shows "\<exists>t result. KDTree data lsize = Inr t \<and> kNearest t query k = Inr result
           \<and> length result = min (nat k) (length data)"
proof (cases "data = []")
  case True
  then show ?thesis
    by (simp add: KDTree_empty kNearest_def)
next
  case False
  let ?dims = "length (embedding (data ! 0))"
  from KDTree_ctor_nonempty [of "[data]" 0 lsize] ok False obtain nd data' where
    c: "KDTree_ctor [data] 0 lsize
          = Inr (\<lparr>root = nd, leaf_size = lsize, dimensions = ?dims\<rparr>, [data])"
    and b: "built lsize ?dims data 0 (length data) nd data'"
    by auto
  let ?t = "\<lparr>root = nd, leaf_size = lsize, dimensions = ?dims\<rparr>"
  have t: "KDTree data lsize = Inr ?t"
    using c by (simp add: KDTree_def)
  from b small q [OF False] have nok: "node_ok (length query) nd"
    and its: "mset (items nd) = mset data"
    by (simp_all add: built_def slice_def)
  have n: "count_nodes nd = length data"
    using its by (metis length_items size_mset)
  from kNearestNeighbors_returns [OF nok k, of "[]"] obtain pq where
    pq: "kNearestNeighbors nd query [] k = Inr pq"
    by blast
  from kNearestNeighbors_length [OF pq] have "length pq = min (nat k) (length data)"
    by (simp add: n)
  then have "kNearest ?t query k = Inr (rev (drain pq [])) \<and>
      length (rev (drain pq [])) = min (nat k) (length data)"
    using pq by (simp add: kNearest_def drain_length)
  with t show ?thesis by blast
qed

text \<open>
  Claim C5 fails on the code. With one stored item and \<open>k = 0\<close> the test
  \<^verbatim>\<open>pq.size() < k\<close> is false at the root, and the branch that follows reads
  \<^verbatim>\<open>pq.top()\<close> of the empty queue: the call has no defined result, where the claim
  promises the empty sequence.
\<close>

theorem kNearest_zero_reads_top_of_empty_queue:
  "KDTree [item_a] 1
     = Inr \<lparr>root = Node [0] ''a'' 0 nullptr nullptr, leaf_size = 1, dimensions = 1\<rparr>
   \<and> kNearest \<lparr>root = Node [0] ''a'' 0 nullptr nullptr, leaf_size = 1, dimensions = 1\<rparr> [0] 0
     = Inl TopOfEmptyQueue"
  by (simp add: KDTree_def KDTree_ctor_def buildTree.simps item_a_def kNearest_def
      heap_update_def squaredNorm_diff_def)

section \<open>Searches and the leaf size\<close>

text \<open>
  Claim C2 fails on the code. On the same dataset and the query 1, the tree built with
  leaf size 1 answers \<open>b\<close> at distance 0, the tree built with leaf size 2 answers \<open>a\<close>
  at distance 1; \<^verbatim>\<open>kNearest\<close> with \<open>k = 2\<close> returns two results on the first and one
  on the second.
\<close>

theorem nearest_depends_on_leaf_size:
  "KDTree [item_a, item_b] 1
     = Inr \<lparr>root = Node [1] ''b'' 0 (Node [0] ''a'' 0 nullptr nullptr) nullptr,
            leaf_size = 1, dimensions = 1\<rparr>
   \<and> KDTree [item_a, item_b] 2
     = Inr \<lparr>root = Node [0] ''a'' 0 nullptr nullptr, leaf_size = 2, dimensions = 1\<rparr>
   \<and> nearest \<lparr>root = Node [1] ''b'' 0 (Node [0] ''a'' 0 nullptr nullptr) nullptr,
            leaf_size = 1, dimensions = 1\<rparr> [1] = Inr (0, ''b'')
   \<and> nearest \<lparr>root = Node [0] ''a'' 0 nullptr nullptr, leaf_size = 2, dimensions = 1\<rparr> [1]
     = Inr (1, ''a'')
   \<and> kNearest \<lparr>root = Node [1] ''b'' 0 (Node [0] ''a'' 0 nullptr nullptr) nullptr,
            leaf_size = 1, dimensions = 1\<rparr> [1] 2 = Inr [(0, ''b''), (1, ''a'')]
   \<and> kNearest \<lparr>root = Node [0] ''a'' 0 nullptr nullptr, leaf_size = 2, dimensions = 1\<rparr> [1] 2
     = Inr [(1, ''a'')]"
  by (simp add: KDTree_ab_leaf1 KDTree_ab_leaf2 nearest_ab_leaf2)
     (simp add: nearest_def kNearest_def heap_update_def squaredNorm_diff_def coeff_def double_max_gt)

section \<open>Queries of another dimension\<close>

text \<open>
  Claim C9 as the specification words it fails: the index built from the empty dataset
  has dimension 0, and a query of dimension 3 is answered by both operations, not
  refused.
\<close>

theorem query_dimension_unchecked_counterexample:
  "KDTree [] 1 = Inr \<lparr>root = nullptr, leaf_size = 1, dimensions = 0\<rparr>
   \<and> length [1, 2, 3 :: real] \<noteq> dimensions \<lparr>root = nullptr, leaf_size = 1, dimensions = 0\<rparr>
   \<and> nearest \<lparr>root = nullptr, leaf_size = 1, dimensions = 0\<rparr> [1, 2, 3]
       = Inr (sqrt double_max, '''')
   \<and> kNearest \<lparr>root = nullptr, leaf_size = 1, dimensions = 0\<rparr> [1, 2, 3] 1 = Inr []"
  by (simp add: KDTree_empty nearest_def kNearest_def)

text \<open>
  Claim C9 as the code has it: no operation compares the dimension of the query with
  that of the index. On the index of the empty dataset a query of any dimension gets
  the initial pair from \<^verbatim>\<open>nearest\<close> and the empty sequence from \<^verbatim>\<open>kNearest\<close>; on the
  index of a well-formed dataset that is not empty, a query of another dimension breaks
  the size precondition of the vector subtraction at the root, in both operations.
\<close>

theorem query_dimension_unchecked:
  assumes "KDTree data lsize = Inr t" "dataset_ok data" "length query \<noteq> dimensions t"
  shows "if data = []
         then nearest t query = Inr (sqrt double_max, '''') \<and> kNearest t query k = Inr []
         else nearest t query = Inl SizeMismatch \<and> kNearest t query k = Inl SizeMismatch"
proof (cases "data = []")
  case True
  with assms(1) have "root t = nullptr"
    by (auto simp: KDTree_empty)
  with True show ?thesis
    by (simp add: nearest_def kNearest_def)
next
  case False
  let ?dims = "length (embedding (data ! 0))"
  from KDTree_ctor_nonempty [of "[data]" 0 lsize] assms(2) False obtain nd data' where
    c: "KDTree_ctor [data] 0 lsize
          = Inr (\<lparr>root = nd, leaf_size = lsize, dimensions = ?dims\<rparr>, [data])"
    and b: "built lsize ?dims data 0 (length data) nd data'" and nn: "nd \<noteq> nullptr"
    by auto
  from c assms(1) have t: "t = \<lparr>root = nd, leaf_size = lsize, dimensions = ?dims\<rparr>"
    by (simp add: KDTree_def)
  from nn obtain point tx axis left right where nd: "nd = Node point tx axis left right"
    by (cases nd) auto
  from b nd have "length point = ?dims"
    by (simp add: built_def)
  with assms(3) t have "squaredNorm_diff query point = Inl SizeMismatch"
    by (simp add: squaredNorm_diff_def)
  with False t nd show ?thesis
    by (simp add: nearest_def kNearest_def)
qed

text \<open>
  Claim C9 as the code has it, at the empty index and a query of dimension 3, and at
  the index of one item of dimension 1 and a query of dimension 2.
\<close>

theorem query_dimension_unchecked_witness:
  "KDTree [] 1 = Inr \<lparr>root = nullptr, leaf_size = 1, dimensions = 0\<rparr>
   \<and> dataset_ok []
   \<and> length [1, 2, 3 :: real] \<noteq> dimensions \<lparr>root = nullptr, leaf_size = 1, dimensions = 0\<rparr>
   \<and> nearest \<lparr>root = nullptr, leaf_size = 1, dimensions = 0\<rparr> [1, 2, 3]
       = Inr (sqrt double_max, '''')
   \<and> kNearest \<lparr>root = nullptr, leaf_size = 1, dimensions = 0\<rparr> [1, 2, 3] 5 = Inr []
   \<and> KDTree [item_a] 1
       = Inr \<lparr>root = Node [0] ''a'' 0 nullptr nullptr, leaf_size = 1, dimensions = 1\<rparr>
   \<and> dataset_ok [item_a]
   \<and> length [0, 0 :: real]
       \<noteq> dimensions \<lparr>root = Node [0] ''a'' 0 nullptr nullptr, leaf_size = 1, dimensions = 1\<rparr>
   \<and> nearest \<lparr>root = Node [0] ''a'' 0 nullptr nullptr, leaf_size = 1, dimensions = 1\<rparr> [0, 0]
       = Inl SizeMismatch
   \<and> kNearest \<lparr>root = Node [0] ''a'' 0 nullptr nullptr, leaf_size = 1, dimensions = 1\<rparr> [0, 0] 5
       = Inl SizeMismatch"
proof -
  have c: "KDTree [] 1 = Inr \<lparr>root = nullptr, leaf_size = 1, dimensions = 0\<rparr>"
    by (rule KDTree_empty)
  have d: "dataset_ok []"
    by (simp add: dataset_ok_def)
  have l: "length [1, 2, 3 :: real] \<noteq> dimensions \<lparr>root = nullptr, leaf_size = 1, dimensions = 0\<rparr>"
    by simp
  have c': "KDTree [item_a] 1
      = Inr \<lparr>root = Node [0] ''a'' 0 nullptr nullptr, leaf_size = 1, dimensions = 1\<rparr>"
    by (simp add: KDTree_def KDTree_ctor_def buildTree.simps item_a_def)
  have d': "dataset_ok [item_a]"
    by (simp add: dataset_ok_def item_a_def)
  have l': "length [0, 0 :: real]
      \<noteq> dimensions \<lparr>root = Node [0] ''a'' 0 nullptr nullptr, leaf_size = 1, dimensions = 1\<rparr>"
    by simp
  from query_dimension_unchecked [OF c d l, of 5] query_dimension_unchecked [OF c' d' l', of 5]
    c d l c' d' l'
  show ?thesis
    by simp
qed

end
